theory Spec2Isabelle
  imports Complex_Main "HOL-Library.AList" "HOL-Library.Log_Nat"
begin

section \<open>Binary64 arithmetic\<close>

text \<open>
  The rate limiter computes with Go's \<open>float64\<close>.  A \<open>float64\<close> value is modelled by
  the rational number it stands for, and every arithmetic operation of the limiter by
  the exact operation followed by \<open>float64\<close>: rounding to 53 significant bits, to the
  nearest value and on a tie to the one with an even significand.  Exponents are not
  bounded here; the values the limiter meets (tokens, seconds and nanoseconds of one
  node) are far from the overflow and underflow thresholds of the format.  Each
  operation is rounded by itself, as on amd64; Go permits a platform to fuse a
  multiplication with an addition.
\<close>

definition round_even :: "rat \<Rightarrow> int" where
  "round_even q =
     (let f = \<lfloor>q\<rfloor>; r = q - of_int f
      in if r < 1 / 2 then f else if 1 / 2 < r then f + 1 else if even f then f else f + 1)"

text \<open>The binary exponent of a non-zero rational: \<open>2^e \<le> |q| < 2^(e+1)\<close>.\<close>

definition ilog2 :: "rat \<Rightarrow> int" where
  "ilog2 q =
     (let k = bitlen (fst (quotient_of \<bar>q\<bar>)) - bitlen (snd (quotient_of \<bar>q\<bar>))
      in if 2 powi k \<le> \<bar>q\<bar> then k else k - 1)"

definition float64 :: "rat \<Rightarrow> rat" where
  "float64 q =
     (if q = 0 then 0
      else of_int (round_even (q / 2 powi (ilog2 q - 52))) * 2 powi (ilog2 q - 52))"

text \<open>Go's integer \<open>/\<close> and \<open>%\<close> truncate towards zero.\<close>

definition quo :: "int \<Rightarrow> int \<Rightarrow> int" where
  "quo a b = sgn a * sgn b * (\<bar>a\<bar> div \<bar>b\<bar>)"

definition rem :: "int \<Rightarrow> int \<Rightarrow> int" where
  "rem a b = sgn a * (\<bar>a\<bar> mod \<bar>b\<bar>)"

section \<open>The rate gate: \<open>rate.Limiter\<close> as used by \<open>node.go\<close>\<close>

text \<open>
  \<open>node.go\<close> builds every gate with \<open>rate.NewLimiter(rate.Limit(limitRPS), 1)\<close> and
  \<open>cluster.go\<close> queries it with \<open>Allow()\<close>.  The limiter is the external package
  \<open>golang.org/x/time/rate\<close>, of which the repository names no version.  The part
  of it that these two calls reach is written out here after the package as of
  v0.16.0: a token bucket that starts full, is refilled at \<open>limit\<close> tokens per second
  and never holds more than \<open>burst\<close> tokens; a limit that is not positive refills
  nothing and makes every wait infinite.  Other versions of the package treat a limit
  that is not positive in other ways; no theorem below rests on what the gate does at
  such a limit after its first check.

  Clock readings and durations are integers counting nanoseconds, as \<open>time.Duration\<close>
  does; \<open>time.Time.Sub\<close> saturates at about 292 years, which is out of reach here.
  \<open>rate.Limit\<close> is a \<open>float64\<close>: \<open>Limit r\<close> is the conversion \<open>rate.Limit(r)\<close>
  of an \<open>int\<close>, and \<open>NewLimiter r b\<close> stands for \<open>rate.NewLimiter(rate.Limit(r), b)\<close>.
  The \<open>Inf\<close> limit of the package is the largest \<open>float64\<close>, which no conversion of
  a 64-bit \<open>int\<close> produces, so the branch for it is left out.  Of a reservation only the
  field \<open>ok\<close> is kept, and of the limiter's fields \<open>lastEvent\<close> is dropped: \<open>Allow\<close>
  reads neither.
\<close>

record Limiter =
  limit :: rat
  burst :: int
  tokens :: rat
  last_time :: int

definition Second :: int where
  "Second = 1000000000"

definition InfDuration :: int where
  "InfDuration = 9223372036854775807"

definition Limit :: "int \<Rightarrow> rat" where
  "Limit r = float64 (of_int r)"

definition NewLimiter :: "int \<Rightarrow> int \<Rightarrow> Limiter" where
  "NewLimiter r b =
     \<lparr>limit = Limit r, burst = b, tokens = float64 (of_int b), last_time = 0\<rparr>"

text \<open>
  \<open>time.Duration(x)\<close> of a \<open>float64\<close> drops the fraction.  (Go leaves the result
  open when \<open>x\<close> is beyond the 64-bit range; the one case that \<open>durationFromTokens\<close>
  lets through, \<open>x = 2^63\<close>, needs a wait of 292 years.)
\<close>

definition to_Duration :: "rat \<Rightarrow> int" where
  "to_Duration q = (if 0 \<le> q then \<lfloor>q\<rfloor> else \<lceil>q\<rceil>)"

text \<open>\<open>Duration.Seconds\<close>: \<open>float64(sec) + float64(nsec)/1e9\<close>.\<close>

definition Seconds :: "int \<Rightarrow> rat" where
  "Seconds d =
     float64 (float64 (of_int (quo d Second))
              + float64 (float64 (of_int (rem d Second)) / 1000000000))"

definition durationFromTokens :: "rat \<Rightarrow> rat \<Rightarrow> int" where
  "durationFromTokens lm tk =
     (if lm \<le> 0 then InfDuration
      else let duration = float64 (float64 (tk / lm) * float64 (of_int Second))
           in if duration > float64 (of_int InfDuration) then InfDuration
              else to_Duration duration)"

definition tokensFromDuration :: "rat \<Rightarrow> int \<Rightarrow> rat" where
  "tokensFromDuration lm d =
     (if lm \<le> 0 then 0 else float64 (Seconds d * lm))"

definition advance :: "Limiter \<Rightarrow> int \<Rightarrow> rat" where
  "advance lm t =
     (let last' = (if t < last_time lm then t else last_time lm);
          elapsed = t - last';
          delta = tokensFromDuration (limit lm) elapsed;
          tokens' = float64 (tokens lm + delta);
          burst' = float64 (of_int (burst lm))
      in if tokens' > burst' then burst' else tokens')"

definition reserveN :: "Limiter \<Rightarrow> int \<Rightarrow> int \<Rightarrow> int \<Rightarrow> bool \<times> Limiter" where
  "reserveN lm t n maxFutureReserve =
     (let tokens' = float64 (advance lm t - float64 (of_int n));
          waitDuration =
            (if tokens' < 0 then durationFromTokens (limit lm) (- tokens') else 0);
          ok = (n \<le> burst lm \<and> waitDuration \<le> maxFutureReserve)
      in if ok then (True, lm\<lparr>tokens := tokens', last_time := t\<rparr>) else (False, lm))"

text \<open>\<open>Allow()\<close> is \<open>AllowN(time.Now(), 1)\<close>; the clock reading is the argument \<open>now\<close>.\<close>

definition Allow :: "Limiter \<Rightarrow> int \<Rightarrow> bool \<times> Limiter" where
  "Allow lm now = reserveN lm now 1 0"

section \<open>Nodes (\<open>node.go\<close>)\<close>

text \<open>
  \<open>*sql.DB\<close> is an external resource.  Of it the model keeps the DSN it was opened
  with, the two pool limits as they were last requested, whether \<open>Close\<close> has been
  called, and the error (if any) that the driver reports on \<open>Close\<close>.  What the driver
  does on \<open>sql.Open\<close> and \<open>Ping\<close> is the argument \<open>dial\<close> of \<open>newNode\<close>.
\<close>

datatype error =
    ErrDuplicateNodeName
  | External string
  | Wrap string error string

text \<open>\<open>errors.Is\<close> over the \<open>%w\<close> chain.\<close>

fun Is :: "error \<Rightarrow> error \<Rightarrow> bool" where
  "Is (Wrap pre e post) target = (Wrap pre e post = target \<or> Is e target)"
| "Is e target = (e = target)"

record DB =
  dsn :: string
  maxIdle :: int
  maxOpen :: int
  closed :: bool
  closeErr :: "string option"

datatype dial = OpenFails string | PingFails string | Connects "string option"

definition db_Close :: "DB \<Rightarrow> error option \<times> DB" where
  "db_Close d =
     (if closed d then (None, d)
      else (map_option External (closeErr d), d\<lparr>closed := True\<rparr>))"

record Node =
  name :: string
  db :: DB
  limiter :: Limiter

definition setLimit :: "int \<Rightarrow> Node \<Rightarrow> Node" where
  "setLimit limitRPS n = n\<lparr>limiter := NewLimiter limitRPS 1\<rparr>"

text \<open>
  The struct literal \<open>&Node{db: db, name: name}\<close> leaves the \<open>limiter\<close> field nil
  until \<open>setLimit\<close> runs two lines later; the empty limiter stands for it here.
\<close>

definition newNode :: "string \<Rightarrow> string \<Rightarrow> int \<Rightarrow> int \<Rightarrow> int \<Rightarrow> dial \<Rightarrow> error + Node" where
  "newNode nm ds limitRPS maxIdleConn maxOpenConn d =
     (case d of
        OpenFails e \<Rightarrow> Inl (Wrap ''open db: '' (External e) [])
      | PingFails e \<Rightarrow> Inl (Wrap ''ping db: '' (External e) [])
      | Connects ce \<Rightarrow>
          Inr (setLimit limitRPS
                 \<lparr>name = nm,
                  db = \<lparr>dsn = ds, maxIdle = maxIdleConn, maxOpen = maxOpenConn,
                        closed = False, closeErr = ce\<rparr>,
                  limiter = NewLimiter 0 0\<rparr>))"

section \<open>The cluster (\<open>cluster.go\<close>)\<close>

text \<open>
  Nodes are shared by pointer: the registry, the channel and the selector's iteration
  all refer to the same \<open>*Node\<close>.  The model keeps the nodes in \<open>heap\<close> (a node's
  address is its index) and stores addresses everywhere else.  \<open>nodes\<close> is the
  \<open>sync.Map\<close> as an association list, \<open>idleNode\<close> is the content of the buffered
  channel \<open>make(chan *Node, 1)\<close>, and \<open>selector\<close> is the control state of the
  goroutine \<open>nodeSelector\<close> that \<open>NewCluster\<close> starts: either inside a
  \<open>Range\<close> pass with the entries still to visit (none left: about to start the next
  pass), or at the send \<open>c.idleNode <- node\<close>.  A pass visits the entries that the
  registry holds when the pass starts, in the order of the list; \<open>sync.Map.Range\<close>
  promises no order and, for entries stored or deleted during the call, either view.
  The logger and the mutexes carry no data and are not fields of the model; what a
  mutex protects is one atomic step.  Go's \<open>int\<close> is modelled by the integers: the
  counter and the rates stay far from \<open>2^63\<close>.
\<close>

datatype Selector = Ranging "nat list" | Sending nat "nat list"

record Cluster =
  nodes :: "(string \<times> nat) list"
  idleNode :: "nat list"
  limitRPS :: int
  maxIdleConn :: int
  maxOpenConn :: int
  nodeLen :: int
  heap :: "Node list"
  selector :: Selector

definition NewCluster :: "int \<Rightarrow> Cluster" where
  "NewCluster rps =
     \<lparr>nodes = [], idleNode = [], limitRPS = rps, maxIdleConn = 0, maxOpenConn = 0,
      nodeLen = 0, heap = [], selector = Ranging []\<rparr>"

definition SetLimitRPS :: "int \<Rightarrow> Cluster \<Rightarrow> Cluster" where
  "SetLimitRPS rps c =
     (let c' = c\<lparr>limitRPS := rps\<rparr>
      in c'\<lparr>heap := fold (\<lambda>(key, a) h. h[a := setLimit rps (h ! a)]) (nodes c') (heap c')\<rparr>)"

definition Len :: "Cluster \<Rightarrow> int" where
  "Len c = nodeLen c"

definition nodeExists :: "Cluster \<Rightarrow> string \<Rightarrow> bool" where
  "nodeExists c nm = (map_of (nodes c) nm \<noteq> None)"

text \<open>The critical section of \<open>AddNode\<close>; the new node gets the next free address.\<close>

definition AddNode_store :: "string \<Rightarrow> Node \<Rightarrow> Cluster \<Rightarrow> Cluster" where
  "AddNode_store nm node c =
     c\<lparr>nodeLen := nodeLen c + 1,
       heap := heap c @ [node],
       nodes := AList.update nm (length (heap c)) (nodes c)\<rparr>"

definition AddNode :: "string \<Rightarrow> string \<Rightarrow> dial \<Rightarrow> Cluster \<Rightarrow> error option \<times> Cluster" where
  "AddNode nm ds d c =
     (if nodeExists c nm then (Some (Wrap [] ErrDuplicateNodeName ('': '' @ nm)), c)
      else case newNode nm ds (limitRPS c) (maxIdleConn c) (maxOpenConn c) d of
             Inl err \<Rightarrow> (Some (Wrap ''failed to add a node: '' err []), c)
           | Inr node \<Rightarrow> (None, AddNode_store nm node c))"

text \<open>The critical section of \<open>RemoveNode\<close>.\<close>

definition RemoveNode_delete :: "string \<Rightarrow> Cluster \<Rightarrow> Cluster" where
  "RemoveNode_delete nm c =
     c\<lparr>nodeLen := nodeLen c - 1, nodes := AList.delete nm (nodes c)\<rparr>"

definition RemoveNode :: "string \<Rightarrow> Cluster \<Rightarrow> Cluster" where
  "RemoveNode nm c = (if nodeExists c nm then RemoveNode_delete nm c else c)"

text \<open>
  One step of \<open>nodeSelector\<close> at clock reading \<open>now\<close>; \<open>None\<close> when the goroutine is
  blocked at the send because the channel buffer is full.  The body of the \<open>for\<close> loop
  is the \<open>Range\<close> call alone, so the step after a finished pass starts the next one.
  The type assertion on the stored value cannot fail, the registry holding nodes only.
\<close>

definition nodeSelector :: "int \<Rightarrow> Cluster \<Rightarrow> Cluster option" where
  "nodeSelector now c =
     (case selector c of
        Ranging [] \<Rightarrow> Some (c\<lparr>selector := Ranging (map snd (nodes c))\<rparr>)
      | Ranging (a # rest) \<Rightarrow>
          (let node = heap c ! a;
               r = Allow (limiter node) now
           in Some (c\<lparr>heap := (heap c)[a := node\<lparr>limiter := snd r\<rparr>],
                      selector := (if fst r then Sending a rest else Ranging rest)\<rparr>))
      | Sending a rest \<Rightarrow>
          (if length (idleNode c) < 1
           then Some (c\<lparr>idleNode := idleNode c @ [a], selector := Ranging rest\<rparr>)
           else None))"

text \<open>\<open>Node()\<close> is the receive \<open><-c.idleNode\<close>; \<open>None\<close> when it blocks on the empty channel.\<close>

definition Cluster_Node :: "Cluster \<Rightarrow> (nat \<times> Cluster) option" where
  "Cluster_Node c =
     (case idleNode c of
        [] \<Rightarrow> None
      | a # q \<Rightarrow> Some (a, c\<lparr>idleNode := q\<rparr>))"

definition Close_visit :: "string \<times> nat \<Rightarrow> error option \<times> Node list \<Rightarrow> error option \<times> Node list" where
  "Close_visit kv st =
     (let node = snd st ! snd kv;
          r = db_Close (db node);
          h = (snd st)[snd kv := node\<lparr>db := snd r\<rparr>]
      in case fst r of
           Some err \<Rightarrow> (Some (Wrap (''node '' @ fst kv @ '': '') err []), h)
         | None \<Rightarrow> (fst st, h))"

definition Close :: "Cluster \<Rightarrow> error option \<times> Cluster" where
  "Close c =
     (let r = fold Close_visit (nodes c) (None, heap c)
      in (fst r, c\<lparr>heap := snd r\<rparr>))"

section \<open>Runs of the system\<close>

text \<open>
  A run is a sequence of calls, each at a clock reading.  A call that blocks (a receive
  on the empty channel, the selector at a full channel) leaves the state as it is.
\<close>

datatype op =
    Op_AddNode string string dial
  | Op_RemoveNode string
  | Op_SetLimitRPS int
  | Op_Close
  | Op_Node
  | Op_nodeSelector

fun exec :: "int \<times> op \<Rightarrow> Cluster \<Rightarrow> Cluster" where
  "exec (now, Op_AddNode nm ds d) c = snd (AddNode nm ds d c)"
| "exec (now, Op_RemoveNode nm) c = RemoveNode nm c"
| "exec (now, Op_SetLimitRPS rps) c = SetLimitRPS rps c"
| "exec (now, Op_Close) c = snd (Close c)"
| "exec (now, Op_Node) c = (case Cluster_Node c of None \<Rightarrow> c | Some r \<Rightarrow> snd r)"
| "exec (now, Op_nodeSelector) c = (case nodeSelector now c of None \<Rightarrow> c | Some c' \<Rightarrow> c')"

definition run :: "(int \<times> op) list \<Rightarrow> Cluster \<Rightarrow> Cluster" where
  "run ops c = fold exec ops c"


text \<open>
  Calls that overlap.  \<open>AddNode\<close> and \<open>RemoveNode\<close> each take the lock twice: once
  inside \<open>nodeExists\<close> and once for the update, with \<open>newNode\<close> in between for
  \<open>AddNode\<close>.  A task is a call in progress, at one of these points; a schedule
  names, step by step, the task that moves.
\<close>

datatype task =
    AddNode_call string string dial
  | AddNode_new string string dial
  | AddNode_locked string Node
  | RemoveNode_call string
  | RemoveNode_locked string
  | Returned "error option"

fun task_step :: "task \<Rightarrow> Cluster \<Rightarrow> task \<times> Cluster" where
  "task_step (AddNode_call nm ds d) c =
     (if nodeExists c nm then (Returned (Some (Wrap [] ErrDuplicateNodeName ('': '' @ nm))), c)
      else (AddNode_new nm ds d, c))"
| "task_step (AddNode_new nm ds d) c =
     (case newNode nm ds (limitRPS c) (maxIdleConn c) (maxOpenConn c) d of
        Inl err \<Rightarrow> (Returned (Some (Wrap ''failed to add a node: '' err [])), c)
      | Inr node \<Rightarrow> (AddNode_locked nm node, c))"
| "task_step (AddNode_locked nm node) c = (Returned None, AddNode_store nm node c)"
| "task_step (RemoveNode_call nm) c =
     (if nodeExists c nm then (RemoveNode_locked nm, c) else (Returned None, c))"
| "task_step (RemoveNode_locked nm) c = (Returned None, RemoveNode_delete nm c)"
| "task_step (Returned r) c = (Returned r, c)"

fun interleave :: "nat list \<Rightarrow> task list \<times> Cluster \<Rightarrow> task list \<times> Cluster" where
  "interleave [] st = st"
| "interleave (i # sched) (ts, c) =
     (if i < length ts
      then interleave sched (ts[i := fst (task_step (ts ! i) c)], snd (task_step (ts ! i) c))
      else interleave sched (ts, c))"

text \<open>
  Steps of the selector alone, all at one clock reading: \<open>None\<close> as soon as one of them
  blocks.
\<close>

fun nodeSelector_steps :: "nat \<Rightarrow> int \<Rightarrow> Cluster \<Rightarrow> Cluster option" where
  "nodeSelector_steps 0 now c = Some c"
| "nodeSelector_steps (Suc k) now c =
     (case nodeSelector now c of
        None \<Rightarrow> None
      | Some c' \<Rightarrow> nodeSelector_steps k now c')"

text \<open>Every address in the registry is allocated.\<close>

definition wf :: "Cluster \<Rightarrow> bool" where
  "wf c = list_all (\<lambda>kv. snd kv < length (heap c)) (nodes c)"

fun is_SetLimitRPS :: "op \<Rightarrow> bool" where
  "is_SetLimitRPS (Op_SetLimitRPS rps) = True"
| "is_SetLimitRPS x = False"


text \<open>The cluster default is \<open>r\<close> and so is the limit of the gate of every registered node.\<close>

definition gates_at :: "int \<Rightarrow> Cluster \<Rightarrow> bool" where
  "gates_at r c =
     (limitRPS c = r \<and>
      list_all (\<lambda>kv. snd kv < length (heap c) \<and> limit (limiter (heap c ! snd kv)) = Limit r)
        (nodes c))"

text \<open>The counter agrees with the registry, whose keys are distinct.\<close>

definition counted :: "Cluster \<Rightarrow> bool" where
  "counted c = (distinct (map fst (nodes c)) \<and> nodeLen c = int (length (nodes c)))"

text \<open>
  No node registered, nothing in the channel, and the selector between two passes (so
  that it holds no node, neither at the send nor among entries still to visit).
\<close>

definition idle_empty :: "Cluster \<Rightarrow> bool" where
  "idle_empty c = (nodes c = [] \<and> idleNode c = [] \<and> selector c = Ranging [])"

fun is_AddNode :: "op \<Rightarrow> bool" where
  "is_AddNode (Op_AddNode nm ds d) = True"
| "is_AddNode x = False"


section \<open>Auxiliary facts\<close>

subsection \<open>Rounding\<close>

lemma float64_0 [simp]: "float64 0 = 0"
  by (simp add: float64_def)

lemma round_even_ge_floor: "\<lfloor>q\<rfloor> \<le> round_even q"
  by (simp add: round_even_def Let_def)

lemma float64_nonneg: "0 \<le> q \<Longrightarrow> 0 \<le> float64 q"
proof (cases "q = 0")
  case True
  then show ?thesis by simp
next
  case False
  assume "0 \<le> q"
  let ?u = "2 powi (ilog2 q - 52) :: rat"
  have u: "0 < ?u" by simp
  have "0 \<le> q / ?u" using \<open>0 \<le> q\<close> u by simp
  then have "0 \<le> \<lfloor>q / ?u\<rfloor>" by simp
  then have "0 \<le> round_even (q / ?u)"
    using round_even_ge_floor [of "q / ?u"] by linarith
  then have "0 \<le> (of_int (round_even (q / ?u)) :: rat) * ?u"
    using u by simp
  then show ?thesis using False by (simp add: float64_def)
qed

lemma quotient_of_pos:
  assumes "0 < (a::rat)"
  shows "0 < fst (quotient_of a)" "0 < snd (quotient_of a)"
    "a = of_int (fst (quotient_of a)) / of_int (snd (quotient_of a))"
proof -
  obtain n d where nd: "quotient_of a = (n, d)" by (cases "quotient_of a")
  then have d: "0 < d" by (rule quotient_of_denom_pos)
  have a: "a = of_int n / of_int d" using nd by (rule quotient_of_div)
  have "0 < n"
  proof (rule ccontr)
    assume "\<not> 0 < n"
    then have "of_int n / (of_int d :: rat) \<le> 0" using d by (simp add: divide_le_0_iff)
    then show False using assms a by simp
  qed
  then show "0 < fst (quotient_of a)" "0 < snd (quotient_of a)"
    "a = of_int (fst (quotient_of a)) / of_int (snd (quotient_of a))"
    using d a nd by simp_all
qed

lemma bitlen_bounds_rat:
  assumes "0 < x"
  shows "(2::rat) powi (bitlen x - 1) \<le> of_int x" "of_int x < (2::rat) powi (bitlen x)"
proof -
  from bitlen_bounds [OF assms]
  have 1: "2 ^ nat (bitlen x - 1) \<le> x" and 2: "x < 2 ^ nat (bitlen x)" by simp_all
  have b: "1 \<le> bitlen x"
  proof (rule ccontr)
    assume "\<not> 1 \<le> bitlen x"
    then have "nat (bitlen x) = 0" by simp
    then show False using 2 assms by simp
  qed
  have "(of_int (2 ^ nat (bitlen x - 1)) :: rat) \<le> of_int x" using 1 by (simp only: of_int_le_iff)
  then show "(2::rat) powi (bitlen x - 1) \<le> of_int x"
    using b by (simp add: power_int_def)
  have "(of_int x :: rat) < of_int (2 ^ nat (bitlen x))" using 2 by (simp only: of_int_less_iff)
  then show "of_int x < (2::rat) powi (bitlen x)"
    using b by (simp add: power_int_def)
qed

lemma ilog2_bounds:
  assumes "q \<noteq> 0"
  shows "2 powi ilog2 q \<le> \<bar>q\<bar>" "\<bar>q\<bar> < 2 powi (ilog2 q + 1)"
proof -
  let ?a = "\<bar>q\<bar>"
  let ?n = "fst (quotient_of ?a)"
  let ?d = "snd (quotient_of ?a)"
  let ?k = "bitlen ?n - bitlen ?d"
  have a: "0 < ?a" using assms by simp
  note qp = quotient_of_pos [OF a]
  note bn = bitlen_bounds_rat [OF qp(1)]
  note bd = bitlen_bounds_rat [OF qp(2)]
  have dpos: "0 < (of_int ?d :: rat)" using qp(2) by simp
  have up: "?a < 2 powi (?k + 1)"
  proof -
    have "of_int ?n / of_int ?d < (2::rat) powi (bitlen ?n) / of_int ?d"
      using bn(2) dpos by (simp add: divide_strict_right_mono)
    also have "\<dots> \<le> 2 powi (bitlen ?n) / 2 powi (bitlen ?d - 1)"
    proof -
      have "0 < of_int ?d * (2::rat) powi (bitlen ?d - 1)"
        using dpos by (intro mult_pos_pos) simp_all
      then show ?thesis
        using bd(1) by (intro divide_left_mono) simp_all
    qed
    also have "\<dots> = 2 powi (?k + 1)"
      by (simp add: power_int_diff [symmetric] algebra_simps)
    finally show ?thesis using qp(3) by simp
  qed
  have lo: "2 powi (?k - 1) < ?a"
  proof -
    have "(2::rat) powi (?k - 1) = 2 powi (bitlen ?n - 1) / 2 powi (bitlen ?d)"
      by (simp add: power_int_diff [symmetric] algebra_simps)
    also have "\<dots> < 2 powi (bitlen ?n - 1) / of_int ?d"
      using bd(2) dpos by (intro divide_strict_left_mono) (simp_all add: mult_pos_pos)
    also have "\<dots> \<le> of_int ?n / of_int ?d"
      using bn(1) dpos by (simp add: divide_right_mono)
    finally show ?thesis using qp(3) by simp
  qed
  show "2 powi ilog2 q \<le> \<bar>q\<bar>"
    using lo by (auto simp: ilog2_def Let_def)
  show "\<bar>q\<bar> < 2 powi (ilog2 q + 1)"
    using up by (auto simp: ilog2_def Let_def)
qed

lemma float64_ge_one:
  assumes "1 \<le> q"
  shows "1 \<le> float64 q"
proof -
  have q0: "q \<noteq> 0" using assms by auto
  let ?e = "ilog2 q"
  let ?u = "2 powi (?e - 52) :: rat"
  note b = ilog2_bounds [OF q0]
  have q: "\<bar>q\<bar> = q" using assms by simp
  have e0: "0 \<le> ?e"
  proof (rule ccontr)
    assume "\<not> 0 \<le> ?e"
    then have "?e + 1 \<le> 0" by simp
    then have "(2::rat) powi (?e + 1) \<le> 2 powi 0"
      by (intro power_int_increasing) simp_all
    then have "(2::rat) powi (?e + 1) \<le> 1" by simp
    then show False using b(2) assms q by simp
  qed
  have u: "0 < ?u" by simp
  define c :: int where "c = 2 ^ 52"
  have c: "(of_int c :: rat) = 2 powi 52" by (simp add: c_def)
  have cu: "(of_int c :: rat) * ?u = 2 powi ?e"
    unfolding c by (subst power_int_add [symmetric]) simp_all
  have "(of_int c :: rat) = 2 powi ?e / ?u"
    using cu u by (simp add: field_simps)
  also have "\<dots> \<le> q / ?u"
    using b(1) q u by (simp add: divide_right_mono)
  finally have "c \<le> \<lfloor>q / ?u\<rfloor>" by (simp only: le_floor_iff)
  then have "c \<le> round_even (q / ?u)"
    using round_even_ge_floor [of "q / ?u"] by linarith
  then have "(of_int c :: rat) \<le> of_int (round_even (q / ?u))"
    by (simp only: of_int_le_iff)
  then have "(of_int c :: rat) * ?u \<le> of_int (round_even (q / ?u)) * ?u"
    using u by (intro mult_right_mono) simp_all
  moreover have "(1::rat) \<le> 2 powi ?e"
    using e0 by (simp add: one_le_power_int)
  ultimately show ?thesis using q0 cu by (simp add: float64_def)
qed

lemma float64_1 [simp]: "float64 1 = 1"
  by code_simp

lemma round_even_of_int: "round_even (of_int z) = z"
  by (simp add: round_even_def)

lemma float64_of_int:
  assumes "\<bar>k\<bar> < 2 ^ 53"
  shows "float64 (of_int k) = of_int k"
proof (cases "k = 0")
  case True
  then show ?thesis by simp
next
  case False
  let ?q = "of_int k :: rat"
  let ?e = "ilog2 ?q"
  have q0: "?q \<noteq> 0" using False by simp
  note b = ilog2_bounds [OF q0]
  have "\<bar>?q\<bar> < 2 powi 53"
  proof -
    have "(of_int \<bar>k\<bar> :: rat) < of_int (2 ^ 53)" using assms by (simp only: of_int_less_iff)
    then show ?thesis by simp
  qed
  then have "(2::rat) powi ?e < 2 powi 53" using b(1) by linarith
  then have e: "?e < 53"
  proof -
    have "\<not> 53 \<le> ?e"
    proof
      assume "53 \<le> ?e"
      then have "(2::rat) powi 53 \<le> 2 powi ?e" by (intro power_int_increasing) simp_all
      then show False using \<open>(2::rat) powi ?e < 2 powi 53\<close> by linarith
    qed
    then show ?thesis by simp
  qed
  define n where "n = nat (52 - ?e)"
  have u: "(2::rat) powi (?e - 52) = 1 / 2 ^ n"
  proof -
    have "?e - 52 = - int n" using e by (simp add: n_def)
    then have "(2::rat) powi (?e - 52) = 2 powi (- int n)" by simp
    also have "\<dots> = inverse (2 powi int n)" by (rule power_int_minus)
    also have "\<dots> = 1 / 2 ^ n" by (simp add: inverse_eq_divide)
    finally show ?thesis .
  qed
  have m: "?q / 2 powi (?e - 52) = of_int (k * 2 ^ n)"
    by (simp add: u)
  have "float64 ?q = of_int (round_even (?q / 2 powi (?e - 52))) * 2 powi (?e - 52)"
    using q0 by (simp add: float64_def)
  also have "\<dots> = of_int (round_even (of_int (k * 2 ^ n))) * 2 powi (?e - 52)"
    by (simp only: m)
  also have "\<dots> = of_int (k * 2 ^ n) * (1 / 2 ^ n)"
    by (simp only: round_even_of_int u)
  finally show ?thesis by simp
qed

lemma Limit_exact: "\<bar>r\<bar> < 2 ^ 53 \<Longrightarrow> Limit r = of_int r"
  by (simp add: Limit_def float64_of_int)

subsection \<open>The gate\<close>

lemma Seconds_nonneg: "0 \<le> d \<Longrightarrow> 0 \<le> Seconds d"
proof -
  assume d: "0 \<le> d"
  have "0 \<le> quo d Second" "0 \<le> rem d Second"
    using d by (simp_all add: quo_def rem_def Second_def sgn_if pos_imp_zdiv_nonneg_iff)
  then have "0 \<le> float64 (of_int (quo d Second))"
    "0 \<le> float64 (float64 (of_int (rem d Second)) / 1000000000)"
    by (simp_all add: float64_nonneg)
  then show ?thesis by (simp add: Seconds_def float64_nonneg)
qed

lemma tokensFromDuration_nonneg: "0 \<le> d \<Longrightarrow> 0 \<le> tokensFromDuration r d"
  using Seconds_nonneg [of d]
  by (simp add: tokensFromDuration_def float64_nonneg)

lemma advance_fresh: "advance (NewLimiter r 1) t = 1"
proof -
  let ?lm = "NewLimiter r 1"
  let ?el = "t - (if t < last_time ?lm then t else last_time ?lm)"
  have "0 \<le> ?el" by simp
  then have "0 \<le> tokensFromDuration (limit ?lm) ?el"
    by (rule tokensFromDuration_nonneg)
  then have "1 \<le> float64 (1 + tokensFromDuration (limit ?lm) ?el)"
    by (intro float64_ge_one) simp
  moreover have "tokens ?lm = 1" "burst ?lm = 1" by (simp_all add: NewLimiter_def)
  ultimately show ?thesis
    by (simp add: advance_def Let_def)
qed

lemma Allow_fresh_eq:
  "Allow (NewLimiter r 1) now = (True, (NewLimiter r 1)\<lparr>tokens := 0, last_time := now\<rparr>)"
proof -
  have "burst (NewLimiter r 1) = 1" by (simp add: NewLimiter_def)
  then show ?thesis
    by (simp add: Allow_def reserveN_def Let_def advance_fresh)
qed

lemma Allow_fresh: "fst (Allow (NewLimiter r 1) now)"
  by (simp add: Allow_fresh_eq)

lemma Allow_limit: "limit (snd (Allow lm t)) = limit lm"
  by (simp add: Allow_def reserveN_def Let_def)

lemma Allow_reject_unchanged: "\<not> fst (Allow lm t) \<Longrightarrow> snd (Allow lm t) = lm"
  by (auto simp: Allow_def reserveN_def Let_def split: if_splits)

lemma tokens_NewLimiter: "tokens (NewLimiter r 1) = 1"
  by (simp add: NewLimiter_def)

text \<open>A gate of rate 1 whose token was taken at clock reading 0.\<close>

lemma spent_check_0:
  "Allow ((NewLimiter 1 1)\<lparr>tokens := 0, last_time := 0\<rparr>) 0
     = (False, (NewLimiter 1 1)\<lparr>tokens := 0, last_time := 0\<rparr>)"
  by code_simp

lemma spent_check_1:
  "Allow ((NewLimiter 1 1)\<lparr>tokens := 0, last_time := 0\<rparr>) 1
     = (False, (NewLimiter 1 1)\<lparr>tokens := 0, last_time := 0\<rparr>)"
  by code_simp

lemma spent_check_5:
  "Allow ((NewLimiter 1 1)\<lparr>tokens := 0, last_time := 0\<rparr>) 5
     = (False, (NewLimiter 1 1)\<lparr>tokens := 0, last_time := 0\<rparr>)"
  by code_simp

lemma spent_check_second:
  "Allow ((NewLimiter 1 1)\<lparr>tokens := 0, last_time := 0\<rparr>) 1000000000
     = (True, (NewLimiter 1 1)\<lparr>tokens := 0, last_time := 1000000000\<rparr>)"
  by code_simp


lemma newNode_limiter: "newNode nm ds r i j d = Inr node \<Longrightarrow> limiter node = NewLimiter r 1"
  by (auto simp: newNode_def setLimit_def split: dial.splits)

subsection \<open>Folds over the registry\<close>

lemma fold_setLimit_length:
  "length (fold (\<lambda>(key, a) h. h[a := setLimit r (h ! a)]) kvs h) = length h"
  by (induction kvs arbitrary: h) (auto split: prod.splits)

lemma fold_setLimit_nth:
  "a < length h \<Longrightarrow>
   fold (\<lambda>(key, a) h. h[a := setLimit r (h ! a)]) kvs h ! a =
     (if a \<in> snd ` set kvs then setLimit r (h ! a) else h ! a)"
proof (induction kvs arbitrary: h)
  case Nil
  then show ?case by simp
next
  case (Cons kv kvs)
  obtain k b where kv: "kv = (k, b)" by (cases kv)
  have len: "a < length (h[b := setLimit r (h ! b)])" using Cons.prems by simp
  show ?case
  proof (cases "a = b")
    case True
    then show ?thesis
      using Cons.IH [OF len] Cons.prems by (simp add: kv setLimit_def)
  next
    case False
    then show ?thesis
      using Cons.IH [OF len] Cons.prems by (auto simp: kv)
  qed
qed

lemma Close_visit_length: "length (snd (Close_visit kv st)) = length (snd st)"
  by (simp add: Close_visit_def Let_def split: option.splits)

lemma fold_Close_length: "length (snd (fold Close_visit kvs st)) = length (snd st)"
  by (induction kvs arbitrary: st) (simp_all add: Close_visit_length)

lemma Close_visit_nth:
  "name (snd (Close_visit kv st) ! a) = name (snd st ! a) \<and>
   limiter (snd (Close_visit kv st) ! a) = limiter (snd st ! a)"
  by (cases "a = snd kv"; cases "snd kv < length (snd st)")
     (auto simp: Close_visit_def Let_def list_update_beyond split: option.splits)

lemma fold_Close_nth:
  "name (snd (fold Close_visit kvs st) ! a) = name (snd st ! a) \<and>
   limiter (snd (fold Close_visit kvs st) ! a) = limiter (snd st ! a)"
  by (induction kvs arbitrary: st) (simp_all add: Close_visit_nth)

lemma Close_visit_closed:
  "a < length (snd st) \<Longrightarrow>
   closed (db (snd (Close_visit kv st) ! a)) = (a = snd kv \<or> closed (db (snd st ! a)))"
  by (cases "a = snd kv")
     (auto simp: Close_visit_def Let_def db_Close_def split: option.splits)

lemma fold_Close_closed:
  "a < length (snd st) \<Longrightarrow>
   closed (db (snd (fold Close_visit kvs st) ! a)) =
     (a \<in> snd ` set kvs \<or> closed (db (snd st ! a)))"
proof (induction kvs arbitrary: st)
  case Nil
  then show ?case by simp
next
  case (Cons kv kvs)
  have "a < length (snd (Close_visit kv st))"
    using Cons.prems by (simp add: Close_visit_length)
  from Cons.IH [OF this] Cons.prems show ?case
    by (auto simp: Close_visit_closed)
qed

lemma Close_frame:
  "nodes (snd (Close c)) = nodes c \<and> idleNode (snd (Close c)) = idleNode c \<and>
   selector (snd (Close c)) = selector c \<and> nodeLen (snd (Close c)) = nodeLen c \<and>
   limitRPS (snd (Close c)) = limitRPS c \<and>
   length (heap (snd (Close c))) = length (heap c)"
  by (simp add: Close_def Let_def fold_Close_length)

lemma Close_heap_limiter:
  "limiter (heap (snd (Close c)) ! a) = limiter (heap c ! a)"
  by (simp add: Close_def Let_def fold_Close_nth)

lemmas cluster_defs = AddNode_def NewCluster_def nodeExists_def newNode_def setLimit_def
  AddNode_store_def RemoveNode_def RemoveNode_delete_def nodeSelector_def Cluster_Node_def
  Close_def Close_visit_def db_Close_def SetLimitRPS_def Len_def run_def

subsection \<open>Registry, counter and heap\<close>

lemma set_update_subset: "set (AList.update k v al) \<subseteq> insert (k, v) (set al)"
  by (induction al) auto

lemma set_delete_subset: "set (AList.delete k al) \<subseteq> set al"
  by (auto simp: AList.delete_eq)

lemma update_fresh: "k \<notin> fst ` set al \<Longrightarrow> AList.update k v al = al @ [(k, v)]"
  by (induction al) auto

lemma length_delete_present:
  "distinct (map fst al) \<Longrightarrow> k \<in> fst ` set al \<Longrightarrow> Suc (length (AList.delete k al)) = length al"
  by (induction al) (auto simp: rev_image_eqI)

lemma nodeExists_iff: "nodeExists c nm \<longleftrightarrow> nm \<in> fst ` set (nodes c)"
  by (simp add: nodeExists_def map_of_eq_None_iff)

lemma nodeSelector_frame:
  "nodeSelector now c = Some c' \<Longrightarrow>
   nodes c' = nodes c \<and> nodeLen c' = nodeLen c \<and> length (heap c') = length (heap c)"
  by (auto simp: nodeSelector_def Let_def split: Selector.splits list.splits if_splits)

lemma SetLimitRPS_frame:
  "nodes (SetLimitRPS r c) = nodes c \<and> nodeLen (SetLimitRPS r c) = nodeLen c \<and>
   length (heap (SetLimitRPS r c)) = length (heap c)"
  by (simp add: SetLimitRPS_def Let_def fold_setLimit_length)

lemma Cluster_Node_frame:
  "Cluster_Node c = Some r \<Longrightarrow>
   nodes (snd r) = nodes c \<and> nodeLen (snd r) = nodeLen c \<and> heap (snd r) = heap c"
  by (auto simp: Cluster_Node_def split: list.splits)

lemma counted_AddNode: "counted c \<Longrightarrow> counted (snd (AddNode nm ds d c))"
  by (auto simp: AddNode_def AddNode_store_def counted_def nodeExists_iff update_fresh
        split: sum.splits)

lemma counted_RemoveNode:
  assumes "counted c" shows "counted (RemoveNode nm c)"
proof (cases "nodeExists c nm")
  case False
  then show ?thesis using assms by (simp add: RemoveNode_def)
next
  case True
  then have "Suc (length (AList.delete nm (nodes c))) = length (nodes c)"
    using assms by (intro length_delete_present) (simp_all add: counted_def nodeExists_iff)
  then have "int (length (AList.delete nm (nodes c))) = int (length (nodes c)) - 1"
    by linarith
  then show ?thesis
    using assms True
    by (simp add: RemoveNode_def RemoveNode_delete_def counted_def distinct_delete)
qed

lemma counted_exec: "counted c \<Longrightarrow> counted (exec x c)"
proof (cases x)
  case (Pair now o1)
  assume c: "counted c"
  show ?thesis
  proof (cases o1)
    case (Op_AddNode nm ds d)
    then show ?thesis using c Pair by (simp add: counted_AddNode)
  next
    case (Op_RemoveNode nm)
    then show ?thesis using c Pair by (simp add: counted_RemoveNode)
  next
    case (Op_SetLimitRPS r)
    then show ?thesis using c Pair by (simp add: counted_def SetLimitRPS_frame)
  next
    case Op_Close
    then show ?thesis using c Pair by (simp add: counted_def Close_frame)
  next
    case Op_Node
    then show ?thesis using c Pair
      by (auto simp: counted_def split: option.splits dest: Cluster_Node_frame)
  next
    case Op_nodeSelector
    then show ?thesis using c Pair
      by (auto simp: counted_def split: option.splits dest: nodeSelector_frame)
  qed
qed

lemma sequential_count:
  "Len (run ops (NewCluster r)) = int (length (nodes (run ops (NewCluster r))))"
proof -
  have "counted c \<Longrightarrow> counted (fold exec ops c)" for c
    by (induction ops arbitrary: c) (simp_all add: counted_exec)
  moreover have "counted (NewCluster r)" by (simp add: counted_def NewCluster_def)
  ultimately show ?thesis by (simp add: run_def counted_def Len_def)
qed

lemma wf_AddNode: "wf c \<Longrightarrow> wf (snd (AddNode nm ds d c))"
  using set_update_subset [of nm "length (heap c)" "nodes c"]
  by (auto simp: AddNode_def AddNode_store_def wf_def list_all_iff split: sum.splits)
     fastforce

lemma wf_RemoveNode: "wf c \<Longrightarrow> wf (RemoveNode nm c)"
  using set_delete_subset [of nm "nodes c"]
  by (auto simp: RemoveNode_def RemoveNode_delete_def wf_def list_all_iff)

lemma wf_exec: "wf c \<Longrightarrow> wf (exec x c)"
proof (cases x)
  case (Pair now o1)
  assume c: "wf c"
  show ?thesis
  proof (cases o1)
    case (Op_AddNode nm ds d)
    then show ?thesis using c Pair by (simp add: wf_AddNode)
  next
    case (Op_RemoveNode nm)
    then show ?thesis using c Pair by (simp add: wf_RemoveNode)
  next
    case (Op_SetLimitRPS r)
    then show ?thesis using c Pair by (simp add: wf_def SetLimitRPS_frame)
  next
    case Op_Close
    then show ?thesis using c Pair by (simp add: wf_def Close_frame)
  next
    case Op_Node
    then show ?thesis using c Pair
      by (auto simp: wf_def split: option.splits dest: Cluster_Node_frame)
  next
    case Op_nodeSelector
    then show ?thesis using c Pair
      by (auto simp: wf_def split: option.splits dest: nodeSelector_frame)
  qed
qed

lemma wf_run: "wf c \<Longrightarrow> wf (run ops c)"
  unfolding run_def by (induction ops arbitrary: c) (simp_all add: wf_exec)

lemma wf_NewCluster: "wf (NewCluster r)"
  by (simp add: wf_def NewCluster_def)

lemma interleave_alone_AddNode:
  "interleave [0, 0, 0] ([AddNode_call nm ds d], c) =
     ([Returned (fst (AddNode nm ds d c))], snd (AddNode nm ds d c))"
  by (auto simp: AddNode_def split: sum.splits)

lemma interleave_alone_RemoveNode:
  "interleave [0, 0] ([RemoveNode_call nm], c) = ([Returned None], RemoveNode nm c)"
  by (auto simp: RemoveNode_def)

lemma map_limiter_Close: "map limiter (heap (snd (Close c))) = map limiter (heap c)"
  by (rule nth_equalityI) (simp_all add: Close_frame Close_heap_limiter)

lemma Close_closes_registered:
  assumes "wf c"
  shows "list_all (\<lambda>kv. closed (db (heap (snd (Close c)) ! snd kv))) (nodes c)"
proof -
  have "closed (db (heap (snd (Close c)) ! snd kv))" if "kv \<in> set (nodes c)" for kv
  proof -
    have "snd kv < length (heap c)"
      using assms that by (simp add: wf_def list_all_iff)
    then show ?thesis
      using that fold_Close_closed [of "snd kv" "(None, heap c)" "nodes c"]
      by (simp add: Close_def Let_def)
  qed
  then show ?thesis by (simp add: list_all_iff)
qed

lemma exec_idle_empty:
  "idle_empty c \<Longrightarrow> \<not> is_AddNode (snd x) \<Longrightarrow> idle_empty (exec x c)"
proof (cases x)
  case (Pair now o1)
  assume c: "idle_empty c" and x: "\<not> is_AddNode (snd x)"
  show ?thesis
  proof (cases o1)
    case (Op_AddNode nm ds d)
    then show ?thesis using x Pair by simp
  next
    case (Op_RemoveNode nm)
    then show ?thesis using c Pair
      by (simp add: idle_empty_def RemoveNode_def nodeExists_def)
  next
    case (Op_SetLimitRPS r)
    then show ?thesis using c Pair
      by (simp add: idle_empty_def SetLimitRPS_def Let_def)
  next
    case Op_Close
    then show ?thesis using c Pair by (simp add: idle_empty_def Close_frame)
  next
    case Op_Node
    then show ?thesis using c Pair by (simp add: idle_empty_def Cluster_Node_def)
  next
    case Op_nodeSelector
    then show ?thesis using c Pair by (simp add: idle_empty_def nodeSelector_def)
  qed
qed

lemma run_idle_empty:
  "idle_empty c \<Longrightarrow> list_all (\<lambda>x. \<not> is_AddNode (snd x)) ops \<Longrightarrow> idle_empty (run ops c)"
  unfolding run_def by (induction ops arbitrary: c) (simp_all add: exec_idle_empty)

lemma SetLimitRPS_heap:
  "a < length (heap c) \<Longrightarrow>
   heap (SetLimitRPS r c) ! a =
     (if a \<in> snd ` set (nodes c) then setLimit r (heap c ! a) else heap c ! a)"
  by (simp add: SetLimitRPS_def Let_def fold_setLimit_nth)

subsection \<open>Rates after a reconfiguration\<close>

lemma gates_at_AddNode: 
  assumes "gates_at r c" shows "gates_at r (snd (AddNode nm ds d c))"
proof (cases "fst (AddNode nm ds d c)")
  case (Some e)
  then have "snd (AddNode nm ds d c) = c"
    by (auto simp: AddNode_def split: if_splits sum.splits)
  then show ?thesis using assms by simp
next
  case None
  then obtain node where n: "newNode nm ds (limitRPS c) (maxIdleConn c) (maxOpenConn c) d = Inr node"
    and s: "snd (AddNode nm ds d c) = AddNode_store nm node c"
    by (auto simp: AddNode_def split: if_splits sum.splits)
  have lim: "limit (limiter node) = Limit r"
    using newNode_limiter [OF n] assms by (simp add: gates_at_def NewLimiter_def)
  have "snd kv < length (heap c @ [node]) \<and> limit (limiter ((heap c @ [node]) ! snd kv)) = Limit r"
    if "kv \<in> set (AList.update nm (length (heap c)) (nodes c))" for kv
  proof -
    from that set_update_subset [of nm "length (heap c)" "nodes c"]
    consider "kv = (nm, length (heap c))" | "kv \<in> set (nodes c)" by auto
    then show ?thesis
    proof cases
      case 1
      then show ?thesis using lim by simp
    next
      case 2
      then show ?thesis using assms by (auto simp: gates_at_def list_all_iff nth_append)
    qed
  qed
  then show ?thesis
    using assms by (simp add: s AddNode_store_def gates_at_def list_all_iff)
qed

lemma gates_at_RemoveNode: "gates_at r c \<Longrightarrow> gates_at r (RemoveNode nm c)"
  using set_delete_subset [of nm "nodes c"]
  by (auto simp: RemoveNode_def RemoveNode_delete_def gates_at_def list_all_iff)

lemma gates_at_Close: "gates_at r c \<Longrightarrow> gates_at r (snd (Close c))"
  by (simp add: gates_at_def Close_frame Close_heap_limiter)

lemma gates_at_Node: "gates_at r c \<Longrightarrow> Cluster_Node c = Some x \<Longrightarrow> gates_at r (snd x)"
  by (auto simp: gates_at_def Cluster_Node_def split: list.splits)

lemma gates_at_nodeSelector:
  assumes "gates_at r c" "nodeSelector now c = Some c'" shows "gates_at r c'"
proof (cases "selector c")
  case (Ranging as)
  show ?thesis
  proof (cases as)
    case Nil
    then show ?thesis using assms Ranging by (auto simp: nodeSelector_def gates_at_def)
  next
    case (Cons a rest)
    define h' where "h' = (heap c)[a := (heap c ! a)\<lparr>limiter := snd (Allow (limiter (heap c ! a)) now)\<rparr>]"
    have lim: "limit (limiter (h' ! b)) = limit (limiter (heap c ! b))"
      if "b < length (heap c)" for b
      using that unfolding h'_def by (cases "a = b") (simp_all add: Allow_limit)
    have c': "nodes c' = nodes c" "limitRPS c' = limitRPS c" "heap c' = h'"
      using assms(2) Ranging Cons by (auto simp: nodeSelector_def Let_def h'_def)
    have "snd kv < length h' \<and> limit (limiter (h' ! snd kv)) = Limit r" if "kv \<in> set (nodes c)" for kv
    proof -
      have "snd kv < length (heap c)" "limit (limiter (heap c ! snd kv)) = Limit r"
        using assms(1) that by (auto simp: gates_at_def list_all_iff)
      then show ?thesis using lim [of "snd kv"] by (simp add: h'_def)
    qed
    then show ?thesis
      using assms(1) by (simp add: gates_at_def c' list_all_iff)
  qed
next
  case (Sending a rest)
  then show ?thesis
    using assms by (auto simp: nodeSelector_def gates_at_def split: if_splits)
qed

lemma gates_at_exec:
  "gates_at r c \<Longrightarrow> \<not> is_SetLimitRPS (snd x) \<Longrightarrow> gates_at r (exec x c)"
  by (cases x; cases "snd x")
     (auto simp: gates_at_AddNode gates_at_RemoveNode gates_at_Close
        dest: gates_at_Node gates_at_nodeSelector split: option.splits)

lemma gates_at_run:
  "gates_at r c \<Longrightarrow> list_all (\<lambda>x. \<not> is_SetLimitRPS (snd x)) ops \<Longrightarrow> gates_at r (run ops c)"
  unfolding run_def by (induction ops arbitrary: c) (simp_all add: gates_at_exec)

lemma gates_at_SetLimitRPS: "wf c \<Longrightarrow> gates_at r (SetLimitRPS r c)"
proof -
  assume w: "wf c"
  have "limitRPS (SetLimitRPS r c) = r" "nodes (SetLimitRPS r c) = nodes c"
    "length (heap (SetLimitRPS r c)) = length (heap c)"
    by (simp_all add: SetLimitRPS_def Let_def fold_setLimit_length)
  moreover have "limit (limiter (heap (SetLimitRPS r c) ! snd kv)) = Limit r"
    if "kv \<in> set (nodes c)" for kv
  proof -
    have "snd kv < length (heap c)" using w that by (simp add: wf_def list_all_iff)
    then have "heap (SetLimitRPS r c) ! snd kv = setLimit r (heap c ! snd kv)"
      using that by (simp add: SetLimitRPS_def Let_def fold_setLimit_nth)
    then show ?thesis by (simp add: setLimit_def NewLimiter_def)
  qed
  ultimately show ?thesis
    using w by (simp add: gates_at_def wf_def list_all_iff)
qed

lemma AddNode_new_gate:
  assumes "fst (AddNode nm ds d c) = None"
  shows "\<exists>a. map_of (nodes (snd (AddNode nm ds d c))) nm = Some a \<and>
             limiter (heap (snd (AddNode nm ds d c)) ! a) = NewLimiter (limitRPS c) 1"
proof -
  from assms obtain node where n: "newNode nm ds (limitRPS c) (maxIdleConn c) (maxOpenConn c) d = Inr node"
    and s: "snd (AddNode nm ds d c) = AddNode_store nm node c"
    by (auto simp: AddNode_def split: if_splits sum.splits)
  show ?thesis
    using newNode_limiter [OF n]
    by (simp add: s AddNode_store_def update_conv')
qed

subsection \<open>Passes of the selector\<close>

lemma nodeSelector_steps_add:
  "nodeSelector_steps (j + k) now c =
     (case nodeSelector_steps j now c of None \<Rightarrow> None | Some c' \<Rightarrow> nodeSelector_steps k now c')"
  by (induction j arbitrary: c) (simp_all split: option.splits)

lemma rejected_pass:
  "selector c = Ranging as \<Longrightarrow>
   list_all (\<lambda>a. \<not> fst (Allow (limiter (heap c ! a)) now)) as \<Longrightarrow>
   nodeSelector_steps (length as) now c = Some (c\<lparr>selector := Ranging []\<rparr>)"
proof (induction as arbitrary: c)
  case Nil
  then show ?case by simp
next
  case (Cons a rest)
  have rej: "snd (Allow (limiter (heap c ! a)) now) = limiter (heap c ! a)"
    using Cons.prems(2) by (simp add: Allow_reject_unchanged)
  have step: "nodeSelector now c = Some (c\<lparr>selector := Ranging rest\<rparr>)"
    using Cons.prems by (simp add: nodeSelector_def Let_def rej)
  have "nodeSelector_steps (length rest) now (c\<lparr>selector := Ranging rest\<rparr>)
          = Some (c\<lparr>selector := Ranging rest, selector := Ranging []\<rparr>)"
    using Cons.prems(2) by (intro Cons.IH) simp_all
  then show ?case by (simp add: step)
qed

lemma rejected_scan:
  assumes "selector c = Ranging []"
    and "list_all (\<lambda>kv. \<not> fst (Allow (limiter (heap c ! snd kv)) now)) (nodes c)"
  shows "nodeSelector_steps (Suc (length (nodes c))) now c = Some c"
proof -
  let ?c1 = "c\<lparr>selector := Ranging (map snd (nodes c))\<rparr>"
  have 1: "nodeSelector now c = Some ?c1"
    using assms(1) by (simp add: nodeSelector_def)
  have "nodeSelector_steps (length (map snd (nodes c))) now ?c1 = Some (?c1\<lparr>selector := Ranging []\<rparr>)"
    using assms(2) by (intro rejected_pass) (simp_all add: list_all_iff)
  moreover have "?c1\<lparr>selector := Ranging []\<rparr> = c"
    using assms(1) by simp
  ultimately show ?thesis by (simp add: 1)
qed

lemmas gate_evals = Allow_fresh_eq spent_check_0 spent_check_1 spent_check_5 spent_check_second
  tokens_NewLimiter

lemma SetLimitRPS_gates:
  assumes "wf c"
  shows "list_all (\<lambda>kv. limiter (heap (SetLimitRPS r c) ! snd kv) = NewLimiter r 1) (nodes c)"
proof -
  have "limiter (heap (SetLimitRPS r c) ! snd kv) = NewLimiter r 1" if "kv \<in> set (nodes c)" for kv
  proof -
    have "snd kv < length (heap c)" using assms that by (simp add: wf_def list_all_iff)
    then have "heap (SetLimitRPS r c) ! snd kv = setLimit r (heap c ! snd kv)"
      using that by (simp add: SetLimitRPS_heap)
    then show ?thesis by (simp add: setLimit_def)
  qed
  then show ?thesis by (simp add: list_all_iff)
qed

subsection \<open>Admissions, the channel and deliveries\<close>








section \<open>\<open>Close\<close> and the selector\<close>

text \<open>
  A cluster with one node is closed; the selector then starts a pass over the registry,
  finds the node, and three steps after \<open>Close\<close> returned the node is in the channel.
\<close>

theorem selector_runs_after_Close_counterexample:
  "map_option selector
     (nodeSelector_steps 1 2 (snd (Close (snd (AddNode ''a'' ''dsn'' (Connects None) (NewCluster 1))))))
     = Some (Ranging [0])
   \<and> map_option idleNode
     (nodeSelector_steps 3 2 (snd (Close (snd (AddNode ''a'' ''dsn'' (Connects None) (NewCluster 1))))))
     = Some [0]"
  by (simp add: cluster_defs gate_evals numeral_3_eq_3)

text \<open>
  C2, as the code has it.  \<open>Close\<close> calls \<open>db.Close()\<close> on every registered node, so
  each of them is closed afterwards.  It sends the selector nothing: the selector is
  where it was, it is blocked after \<open>Close\<close> exactly if it was blocked before, and
  inside a pass it is never blocked.
\<close>

theorem Close_closes_nodes_not_selector:
  "wf c \<Longrightarrow>
   list_all (\<lambda>kv. closed (db (heap (snd (Close c)) ! snd kv))) (nodes c)
   \<and> selector (snd (Close c)) = selector c
   \<and> (nodeSelector now (snd (Close c)) = None \<longleftrightarrow> nodeSelector now c = None)
   \<and> (\<forall>rest. selector c = Ranging rest \<longrightarrow> nodeSelector now (snd (Close c)) \<noteq> None)"
  using Close_closes_registered [of c]
  by (auto simp: nodeSelector_def Close_frame Let_def split: Selector.splits list.splits)

theorem Close_closes_nodes_not_selector_witness:
  "wf (snd (AddNode ''a'' ''dsn'' (Connects None) (NewCluster 1)))
   \<and> closed (db (heap (snd (Close (snd (AddNode ''a'' ''dsn'' (Connects None) (NewCluster 1))))) ! 0))
   \<and> selector (snd (Close (snd (AddNode ''a'' ''dsn'' (Connects None) (NewCluster 1))))) = Ranging []
   \<and> nodeSelector 2 (snd (Close (snd (AddNode ''a'' ''dsn'' (Connects None) (NewCluster 1))))) \<noteq> None"
proof -
  have w: "wf (snd (AddNode ''a'' ''dsn'' (Connects None) (NewCluster 1)))"
    by (simp add: wf_def cluster_defs)
  show ?thesis
    using w Close_closes_nodes_not_selector [OF w, of 2]
    by (simp add: cluster_defs)
qed

section \<open>Failures of \<open>AddNode\<close>\<close>

text \<open>
  C3.  \<open>AddNode\<close> returns an error that wraps \<open>ErrDuplicateNodeName\<close> exactly when the
  name is registered; when the name is free and \<open>sql.Open\<close> or \<open>Ping\<close> fails it returns
  that failure wrapped twice; whenever it returns an error the cluster, and with it the
  registry and the count, is as it was; and it succeeds exactly when the name is free
  and the database answers.
\<close>

theorem AddNode_errors:
  "((\<exists>e. fst (AddNode nm ds d c) = Some e \<and> Is e ErrDuplicateNodeName) \<longleftrightarrow> nodeExists c nm)
   \<and> (\<not> nodeExists c nm \<longrightarrow>
        (\<forall>m. d = OpenFails m \<longrightarrow>
           fst (AddNode nm ds d c) =
             Some (Wrap ''failed to add a node: '' (Wrap ''open db: '' (External m) []) []))
      \<and> (\<forall>m. d = PingFails m \<longrightarrow>
           fst (AddNode nm ds d c) =
             Some (Wrap ''failed to add a node: '' (Wrap ''ping db: '' (External m) []) [])))
   \<and> (fst (AddNode nm ds d c) \<noteq> None \<longrightarrow> snd (AddNode nm ds d c) = c)
   \<and> (fst (AddNode nm ds d c) = None \<longleftrightarrow> \<not> nodeExists c nm \<and> (\<exists>ce. d = Connects ce))"
  by (cases d) (auto simp: AddNode_def newNode_def)

theorem AddNode_errors_witness:
  "nodeExists (snd (AddNode ''a'' ''dsn'' (Connects None) (NewCluster 1))) ''a''
   \<and> fst (AddNode ''a'' ''dsn2'' (Connects None)
            (snd (AddNode ''a'' ''dsn'' (Connects None) (NewCluster 1))))
       = Some (Wrap [] ErrDuplicateNodeName '': a'')
   \<and> snd (AddNode ''a'' ''dsn2'' (Connects None)
            (snd (AddNode ''a'' ''dsn'' (Connects None) (NewCluster 1))))
       = snd (AddNode ''a'' ''dsn'' (Connects None) (NewCluster 1))
   \<and> \<not> nodeExists (NewCluster 1) ''b''
   \<and> fst (AddNode ''b'' ''dsn'' (OpenFails ''refused'') (NewCluster 1))
       = Some (Wrap ''failed to add a node: '' (Wrap ''open db: '' (External ''refused'') []) [])
   \<and> snd (AddNode ''b'' ''dsn'' (PingFails ''timeout'') (NewCluster 1)) = NewCluster 1"
  using AddNode_errors [of "''a''" "''dsn2''" "Connects None"
          "snd (AddNode ''a'' ''dsn'' (Connects None) (NewCluster 1))"]
        AddNode_errors [of "''b''" "''dsn''" "OpenFails ''refused''" "NewCluster 1"]
        AddNode_errors [of "''b''" "''dsn''" "PingFails ''timeout''" "NewCluster 1"]
  by (simp add: AddNode_def NewCluster_def nodeExists_def newNode_def setLimit_def
        AddNode_store_def NewLimiter_def)

section \<open>\<open>Node()\<close> after \<open>Close\<close>\<close>

text \<open>
  On a closed cluster without nodes the receive in \<open>Node()\<close> blocks, and still does
  after the selector has run on.
\<close>

theorem Node_blocks_after_Close_counterexample:
  "Cluster_Node (snd (Close (NewCluster 1))) = None
   \<and> map_option Cluster_Node (nodeSelector_steps 4 5 (snd (Close (NewCluster 1)))) = Some None"
  by (simp add: cluster_defs numeral_eq_Suc)

text \<open>
  C4, as the code has it.  \<open>Node()\<close> has no error result and takes no notice of
  \<open>Close\<close>.  After \<open>Close\<close> it blocks when the channel is empty and otherwise
  returns the node at the head of the channel and takes it out, which is what it did
  before.  And it can block for good: when no node is registered, the channel is empty
  and the selector is between two passes, holding no node, then after \<open>Close\<close> the
  call blocks through every run of calls that registers no node.
\<close>

theorem Node_after_Close:
  "(idleNode c = [] \<longrightarrow> Cluster_Node (snd (Close c)) = None)
   \<and> (\<forall>a q. idleNode c = a # q \<longrightarrow>
         Cluster_Node (snd (Close c)) = Some (a, (snd (Close c))\<lparr>idleNode := q\<rparr>))
   \<and> map_option fst (Cluster_Node (snd (Close c))) = map_option fst (Cluster_Node c)
   \<and> (idle_empty c \<longrightarrow> list_all (\<lambda>x. \<not> is_AddNode (snd x)) ops \<longrightarrow>
        Cluster_Node (run ops (snd (Close c))) = None)"
proof -
  have "idle_empty c \<Longrightarrow> idle_empty (snd (Close c))"
    by (simp add: idle_empty_def Close_frame)
  then have "idle_empty c \<Longrightarrow> list_all (\<lambda>x. \<not> is_AddNode (snd x)) ops \<Longrightarrow>
      Cluster_Node (run ops (snd (Close c))) = None"
    using run_idle_empty [of "snd (Close c)" ops]
    by (simp add: Cluster_Node_def idle_empty_def)
  then show ?thesis
    by (simp add: Cluster_Node_def Close_frame split: list.splits)
qed

theorem Node_after_Close_witness:
  "idleNode (NewCluster 1) = []
   \<and> Cluster_Node (snd (Close (NewCluster 1))) = None
   \<and> idleNode (run [(0, Op_AddNode ''a'' ''dsn'' (Connects None)), (0, Op_nodeSelector),
        (0, Op_nodeSelector), (0, Op_nodeSelector)] (NewCluster 1)) = [0]
   \<and> map_option fst (Cluster_Node (snd (Close
        (run [(0, Op_AddNode ''a'' ''dsn'' (Connects None)), (0, Op_nodeSelector),
          (0, Op_nodeSelector), (0, Op_nodeSelector)] (NewCluster 1))))) = Some 0
   \<and> idle_empty (NewCluster 1)
   \<and> list_all (\<lambda>x. \<not> is_AddNode (snd x))
        [(1::int, Op_nodeSelector), (2, Op_Node), (3, Op_RemoveNode ''a''), (4, Op_SetLimitRPS 0),
         (5, Op_Close), (6, Op_nodeSelector)]
   \<and> Cluster_Node (run [(1, Op_nodeSelector), (2, Op_Node), (3, Op_RemoveNode ''a''),
        (4, Op_SetLimitRPS 0), (5, Op_Close), (6, Op_nodeSelector)]
        (snd (Close (NewCluster 1)))) = None"
proof -
  let ?c = "run [(0, Op_AddNode ''a'' ''dsn'' (Connects None)), (0, Op_nodeSelector),
          (0, Op_nodeSelector), (0, Op_nodeSelector)] (NewCluster 1)"
  let ?ops = "[(1::int, Op_nodeSelector), (2, Op_Node), (3, Op_RemoveNode ''a''),
        (4, Op_SetLimitRPS 0), (5, Op_Close), (6, Op_nodeSelector)]"
  have i: "idleNode ?c = [0]"
    by (simp add: cluster_defs gate_evals)
  have e: "idle_empty (NewCluster 1)" "idleNode (NewCluster 1) = []"
    by (simp_all add: idle_empty_def NewCluster_def)
  have o: "list_all (\<lambda>x. \<not> is_AddNode (snd x)) ?ops" by simp
  have "map_option fst (Cluster_Node (snd (Close ?c))) = Some 0"
    using Node_after_Close [of ?c "[]"] i by simp
  then show ?thesis
    using Node_after_Close [of "NewCluster 1" ?ops] i e o by simp
qed

section \<open>Changing the rate of a node\<close>

text \<open>
  A node with limit 1 has spent its token at time 0, so a check one nanosecond later is
  rejected; after \<open>SetLimitRPS(1)\<close> the same check is admitted, the bucket being full
  again.
\<close>

theorem setLimit_grants_token_counterexample:
  "tokens (limiter (heap (run [(0, Op_AddNode ''a'' ''dsn'' (Connects None)),
        (0, Op_nodeSelector), (0, Op_nodeSelector)] (NewCluster 1)) ! 0)) = 0
   \<and> \<not> fst (Allow (limiter (heap (run [(0, Op_AddNode ''a'' ''dsn'' (Connects None)),
        (0, Op_nodeSelector), (0, Op_nodeSelector)] (NewCluster 1)) ! 0)) 1)
   \<and> tokens (limiter (heap (SetLimitRPS 1 (run [(0, Op_AddNode ''a'' ''dsn'' (Connects None)),
        (0, Op_nodeSelector), (0, Op_nodeSelector)] (NewCluster 1))) ! 0)) = 1
   \<and> fst (Allow (limiter (heap (SetLimitRPS 1 (run [(0, Op_AddNode ''a'' ''dsn'' (Connects None)),
        (0, Op_nodeSelector), (0, Op_nodeSelector)] (NewCluster 1))) ! 0)) 1)"
  by (simp add: cluster_defs gate_evals)

text \<open>
  C5, as the code has it.  \<open>setLimit\<close> does not keep the gate: it puts a new limiter
  with the new rate and a full bucket in its place, and leaves the name and the
  connection alone.  So the first check after \<open>setLimit\<close> is admitted, at any clock
  reading and for any rate, whatever the old gate had left; and \<open>SetLimitRPS\<close> does
  this to every registered node.
\<close>

theorem setLimit_replaces_gate:
  "limiter (setLimit r n) = NewLimiter r 1
   \<and> name (setLimit r n) = name n \<and> db (setLimit r n) = db n
   \<and> fst (Allow (limiter (setLimit r n)) now)
   \<and> (wf c \<longrightarrow>
        list_all (\<lambda>kv. heap (SetLimitRPS r c) ! snd kv = setLimit r (heap c ! snd kv)) (nodes c))"
proof -
  have "wf c \<Longrightarrow>
      list_all (\<lambda>kv. heap (SetLimitRPS r c) ! snd kv = setLimit r (heap c ! snd kv)) (nodes c)"
    by (auto simp: wf_def list_all_iff SetLimitRPS_heap)
  then show ?thesis
    using Allow_fresh [of r now] by (simp add: setLimit_def)
qed

theorem setLimit_replaces_gate_witness:
  "wf (run [(0, Op_AddNode ''a'' ''dsn'' (Connects None)),
        (0, Op_nodeSelector), (0, Op_nodeSelector)] (NewCluster 1))
   \<and> limiter (heap (SetLimitRPS 7 (run [(0, Op_AddNode ''a'' ''dsn'' (Connects None)),
        (0, Op_nodeSelector), (0, Op_nodeSelector)] (NewCluster 1))) ! 0) = NewLimiter 7 1"
  using setLimit_replaces_gate [of 7 _ 0 "run [(0, Op_AddNode ''a'' ''dsn'' (Connects None)),
        (0, Op_nodeSelector), (0, Op_nodeSelector)] (NewCluster 1)"]
  by (simp add: wf_def cluster_defs gate_evals)

section \<open>The counter under overlapping calls\<close>

text \<open>
  C6.  The claim: under any interleaving of \<open>AddNode\<close> and \<open>RemoveNode\<close> calls,
  \<open>Len()\<close> is the number of registry entries.  Two calls \<open>AddNode("a", _)\<close> that take
  turns both see the name free, both build a node and both run the critical section:
  both return nil, \<open>Len()\<close> is 2 and the registry holds the one entry \<open>a\<close>.
  (For calls that do not overlap the two agree: \<open>sequential_count\<close>.)
\<close>

theorem overlapping_AddNode_counter_drift:
  "fst (interleave [0, 1, 0, 1, 0, 1]
          ([AddNode_call ''a'' ''dsn1'' (Connects None),
            AddNode_call ''a'' ''dsn2'' (Connects None)], NewCluster 1))
     = [Returned None, Returned None]
   \<and> Len (snd (interleave [0, 1, 0, 1, 0, 1]
          ([AddNode_call ''a'' ''dsn1'' (Connects None),
            AddNode_call ''a'' ''dsn2'' (Connects None)], NewCluster 1))) = 2
   \<and> map fst (nodes (snd (interleave [0, 1, 0, 1, 0, 1]
          ([AddNode_call ''a'' ''dsn1'' (Connects None),
            AddNode_call ''a'' ''dsn2'' (Connects None)], NewCluster 1)))) = [''a'']"
  by (simp add: cluster_defs)

section \<open>Rate conformance\<close>




section \<open>Propagation of a new rate\<close>

text \<open>
  C8.  \<open>SetLimitRPS(R2)\<close> on a cluster whose registry points into the heap leaves the
  registry as it is, makes \<open>R2\<close> the default, and gives every node that is registered
  the gate \<open>rate.NewLimiter(rate.Limit(R2), 1)\<close>, whose limit is \<open>R2\<close> itself as long
  as \<open>|R2| < 2^53\<close> (beyond, \<open>rate.Limit\<close> rounds).  The default and the limit of every
  registered gate stay \<open>rate.Limit(R2)\<close> through every further run that does not call
  \<open>SetLimitRPS\<close> again, and a node that \<open>AddNode\<close> registers after such a run has
  the gate \<open>rate.NewLimiter(rate.Limit(R2), 1)\<close>.
\<close>

theorem SetLimitRPS_propagates:
  assumes "wf c" and "list_all (\<lambda>x. \<not> is_SetLimitRPS (snd x)) ops"
  shows "nodes (SetLimitRPS R2 c) = nodes c
    \<and> limitRPS (SetLimitRPS R2 c) = R2
    \<and> (\<bar>R2\<bar> < 2 ^ 53 \<longrightarrow> limit (NewLimiter R2 1) = of_int R2)
    \<and> list_all (\<lambda>kv. limiter (heap (SetLimitRPS R2 c) ! snd kv) = NewLimiter R2 1) (nodes c)
    \<and> gates_at R2 (SetLimitRPS R2 c)
    \<and> gates_at R2 (run ops (SetLimitRPS R2 c))
    \<and> (fst (AddNode nm ds d (run ops (SetLimitRPS R2 c))) = None \<longrightarrow>
         (\<exists>a. map_of (nodes (snd (AddNode nm ds d (run ops (SetLimitRPS R2 c))))) nm = Some a \<and>
              limiter (heap (snd (AddNode nm ds d (run ops (SetLimitRPS R2 c)))) ! a)
                = NewLimiter R2 1))"
proof -
  have f: "nodes (SetLimitRPS R2 c) = nodes c" "limitRPS (SetLimitRPS R2 c) = R2"
    by (simp_all add: SetLimitRPS_def Let_def)
  have s: "list_all (\<lambda>kv. limiter (heap (SetLimitRPS R2 c) ! snd kv) = NewLimiter R2 1) (nodes c)"
    using assms(1) by (rule SetLimitRPS_gates)
  have g: "gates_at R2 (SetLimitRPS R2 c)"
    using assms(1) by (rule gates_at_SetLimitRPS)
  have g': "gates_at R2 (run ops (SetLimitRPS R2 c))"
    using g assms(2) by (rule gates_at_run)
  then have "limitRPS (run ops (SetLimitRPS R2 c)) = R2"
    by (simp add: gates_at_def)
  moreover have "\<bar>R2\<bar> < 2 ^ 53 \<longrightarrow> limit (NewLimiter R2 1) = of_int R2"
    by (simp add: NewLimiter_def Limit_exact)
  ultimately show ?thesis
    using f s g g' AddNode_new_gate [of nm ds d "run ops (SetLimitRPS R2 c)"] by simp
qed

theorem SetLimitRPS_propagates_witness:
  "wf (snd (AddNode ''a'' ''dsn'' (Connects None) (NewCluster 1)))
   \<and> list_all (\<lambda>x. \<not> is_SetLimitRPS (snd x))
        [(1::int, Op_nodeSelector), (2, Op_nodeSelector), (3, Op_RemoveNode ''c'')]
   \<and> nodes (snd (AddNode ''a'' ''dsn'' (Connects None) (NewCluster 1))) = [(''a'', 0)]
   \<and> limiter (heap (snd (AddNode ''a'' ''dsn'' (Connects None) (NewCluster 1))) ! 0)
       = NewLimiter 1 1
   \<and> limiter (heap (SetLimitRPS 5 (snd (AddNode ''a'' ''dsn'' (Connects None) (NewCluster 1)))) ! 0)
       = NewLimiter 5 1
   \<and> limit (NewLimiter 5 1) = 5
   \<and> gates_at 5 (run [(1, Op_nodeSelector), (2, Op_nodeSelector), (3, Op_RemoveNode ''c'')]
        (SetLimitRPS 5 (snd (AddNode ''a'' ''dsn'' (Connects None) (NewCluster 1)))))
   \<and> fst (AddNode ''b'' ''dsn2'' (Connects None)
        (run [(1, Op_nodeSelector), (2, Op_nodeSelector), (3, Op_RemoveNode ''c'')]
          (SetLimitRPS 5 (snd (AddNode ''a'' ''dsn'' (Connects None) (NewCluster 1)))))) = None
   \<and> limiter (heap (snd (AddNode ''b'' ''dsn2'' (Connects None)
        (run [(1, Op_nodeSelector), (2, Op_nodeSelector), (3, Op_RemoveNode ''c'')]
          (SetLimitRPS 5 (snd (AddNode ''a'' ''dsn'' (Connects None) (NewCluster 1))))))) ! 1)
       = NewLimiter 5 1"
proof -
  let ?c = "snd (AddNode ''a'' ''dsn'' (Connects None) (NewCluster 1))"
  let ?ops = "[(1::int, Op_nodeSelector), (2, Op_nodeSelector), (3, Op_RemoveNode ''c'')]"
  have w: "wf ?c" by (simp add: wf_def cluster_defs)
  have o: "list_all (\<lambda>x. \<not> is_SetLimitRPS (snd x)) ?ops" by simp
  have n: "nodes ?c = [(''a'', 0)]" "limiter (heap ?c ! 0) = NewLimiter 1 1"
    by (simp_all add: cluster_defs)
  have ok: "fst (AddNode ''b'' ''dsn2'' (Connects None) (run ?ops (SetLimitRPS 5 ?c))) = None"
    by (simp add: cluster_defs gate_evals)
  have at: "map_of (nodes (snd (AddNode ''b'' ''dsn2'' (Connects None)
      (run ?ops (SetLimitRPS 5 ?c))))) ''b'' = Some 1"
    by (simp add: cluster_defs gate_evals)
  note p = SetLimitRPS_propagates [OF w o, of 5 "''b''" "''dsn2''" "Connects None"]
  from p n have a: "limiter (heap (SetLimitRPS 5 ?c) ! 0) = NewLimiter 5 1"
    by simp
  from p ok at have b: "limiter (heap (snd (AddNode ''b'' ''dsn2'' (Connects None)
      (run ?ops (SetLimitRPS 5 ?c)))) ! 1) = NewLimiter 5 1"
    by auto
  from p have g: "gates_at 5 (run ?ops (SetLimitRPS 5 ?c))" by blast
  from p have l: "limit (NewLimiter 5 1) = 5" by simp
  show ?thesis using w o n a b g ok l by blast
qed

section \<open>The selector when no node is eligible\<close>

text \<open>
  One node with limit 1 whose token was spent at time 0, the selector between two
  passes.  With the clock still at 0 the selector starts a pass, the gate rejects, the
  pass ends, and the very next step starts the following pass.
\<close>

theorem selector_spins_counterexample:
  "selector (run [(0, Op_AddNode ''a'' ''dsn'' (Connects None)),
        (0, Op_nodeSelector), (0, Op_nodeSelector), (0, Op_nodeSelector)] (NewCluster 1)) = Ranging []
   \<and> map_option selector (nodeSelector_steps 1 0 (run [(0, Op_AddNode ''a'' ''dsn'' (Connects None)),
        (0, Op_nodeSelector), (0, Op_nodeSelector), (0, Op_nodeSelector)] (NewCluster 1)))
       = Some (Ranging [0])
   \<and> map_option selector (nodeSelector_steps 2 0 (run [(0, Op_AddNode ''a'' ''dsn'' (Connects None)),
        (0, Op_nodeSelector), (0, Op_nodeSelector), (0, Op_nodeSelector)] (NewCluster 1)))
       = Some (Ranging [])
   \<and> map_option selector (nodeSelector_steps 3 0 (run [(0, Op_AddNode ''a'' ''dsn'' (Connects None)),
        (0, Op_nodeSelector), (0, Op_nodeSelector), (0, Op_nodeSelector)] (NewCluster 1)))
       = Some (Ranging [0])"
  by (simp add: cluster_defs gate_evals numeral_eq_Suc)

text \<open>
  C9, as the code has it.  The loop body is the \<open>Range\<close> call and nothing else.  When
  the selector is between two passes and every gate in the registry rejects at the
  clock reading \<open>now\<close>, then a whole pass (one step to start it, one check per entry),
  all at that same reading, blocks nowhere and ends in the state it started from: so
  any number \<open>k\<close> of passes follow one another with no wait in between.
\<close>

theorem selector_rescans_without_waiting:
  assumes "selector c = Ranging []"
    and "list_all (\<lambda>kv. \<not> fst (Allow (limiter (heap c ! snd kv)) now)) (nodes c)"
  shows "nodeSelector_steps (k * Suc (length (nodes c))) now c = Some c"
proof (induction k)
  case 0
  then show ?case by simp
next
  case (Suc k)
  have "nodeSelector_steps (Suc (length (nodes c)) + k * Suc (length (nodes c))) now c = Some c"
    unfolding nodeSelector_steps_add using rejected_scan [OF assms] Suc by simp
  moreover have "Suc k * Suc (length (nodes c)) = Suc (length (nodes c)) + k * Suc (length (nodes c))"
    by simp
  ultimately show ?case by (simp only:)
qed

theorem selector_rescans_without_waiting_witness:
  "selector (run [(0, Op_AddNode ''a'' ''dsn'' (Connects None)),
        (0, Op_nodeSelector), (0, Op_nodeSelector), (0, Op_nodeSelector)] (NewCluster 1)) = Ranging []
   \<and> list_all (\<lambda>kv. \<not> fst (Allow (limiter (heap (run [(0, Op_AddNode ''a'' ''dsn'' (Connects None)),
        (0, Op_nodeSelector), (0, Op_nodeSelector), (0, Op_nodeSelector)] (NewCluster 1)) ! snd kv)) 5))
       (nodes (run [(0, Op_AddNode ''a'' ''dsn'' (Connects None)),
        (0, Op_nodeSelector), (0, Op_nodeSelector), (0, Op_nodeSelector)] (NewCluster 1)))
   \<and> nodeSelector_steps 1000 5 (run [(0, Op_AddNode ''a'' ''dsn'' (Connects None)),
        (0, Op_nodeSelector), (0, Op_nodeSelector), (0, Op_nodeSelector)] (NewCluster 1))
      = Some (run [(0, Op_AddNode ''a'' ''dsn'' (Connects None)),
        (0, Op_nodeSelector), (0, Op_nodeSelector), (0, Op_nodeSelector)] (NewCluster 1))"
proof -
  let ?c = "run [(0, Op_AddNode ''a'' ''dsn'' (Connects None)),
        (0, Op_nodeSelector), (0, Op_nodeSelector), (0, Op_nodeSelector)] (NewCluster 1)"
  have s: "selector ?c = Ranging []"
    by (simp add: cluster_defs gate_evals)
  have n: "nodes ?c = [(''a'', 0)]"
    by (simp add: cluster_defs gate_evals)
  have r: "list_all (\<lambda>kv. \<not> fst (Allow (limiter (heap ?c ! snd kv)) 5)) (nodes ?c)"
    by (simp add: cluster_defs gate_evals)
  have "nodeSelector_steps (500 * Suc (length (nodes ?c))) 5 ?c = Some ?c"
    using s r by (rule selector_rescans_without_waiting)
  moreover have "500 * Suc (length (nodes ?c)) = 1000" by (simp add: n)
  ultimately show ?thesis using s r by simp
qed

section \<open>\<open>Close\<close> and membership\<close>

text \<open>
  C10.  \<open>Close\<close> leaves the registry and the counter as they are, so \<open>Len()\<close> and
  \<open>nodeExists\<close> answer as before; \<open>Node()\<close> returns the same node as before (or
  blocks as before); and the next step of the selector does on the closed cluster what
  it would have done on the open one: the same pass over the same entries, the same
  gate decision, the same send.
\<close>

theorem Close_keeps_membership:
  "nodes (snd (Close c)) = nodes c
   \<and> Len (snd (Close c)) = Len c
   \<and> nodeExists (snd (Close c)) nm = nodeExists c nm
   \<and> map_option fst (Cluster_Node (snd (Close c))) = map_option fst (Cluster_Node c)
   \<and> map_option (\<lambda>c'. (nodes c', idleNode c', selector c', map limiter (heap c')))
        (nodeSelector now (snd (Close c)))
     = map_option (\<lambda>c'. (nodes c', idleNode c', selector c', map limiter (heap c')))
        (nodeSelector now c)"
proof -
  have 1: "map_option fst (Cluster_Node (snd (Close c))) = map_option fst (Cluster_Node c)"
    by (simp add: Cluster_Node_def Close_frame split: list.splits)
  have 2: "map_option (\<lambda>c'. (nodes c', idleNode c', selector c', map limiter (heap c')))
        (nodeSelector now (snd (Close c)))
     = map_option (\<lambda>c'. (nodes c', idleNode c', selector c', map limiter (heap c')))
        (nodeSelector now c)"
    by (simp add: nodeSelector_def Close_frame Close_heap_limiter map_limiter_Close
          map_update Let_def split: Selector.splits list.splits)
  show ?thesis
    using 1 2 by (simp add: Len_def nodeExists_def Close_frame)
qed

end
